theory Spec2Isabelle
  imports Complex_Main
begin

section \<open>Expected-goals model: geometry, probability and evaluation\<close>

text \<open>
  The development embeds the computational kernel of
  \<^verbatim>\<open>course/lessons/lesson2/plot_xGModelFit.py\<close>. The shot geometry and the
  evaluation are modelled over exact reals, with what numpy does where an exact real has
  no answer: an array division by zero gives an infinity or NaN and raises nothing, a
  comparison with NaN is false, and a division of Python floats by zero raises
  \<^verbatim>\<open>ZeroDivisionError\<close>. The probability of line 387 is modelled in double
  precision, with the rounding of every operation.
\<close>

subsection \<open>Values of numpy arithmetic and Python errors\<close>

datatype npfloat = Fin real | PInf | NInf | NaN

datatype py_error = ZeroDivisionError | IndexError | KeyError

text \<open>\<^verbatim>\<open>n / d\<close> on numpy values with finite operands.\<close>

definition np_divide :: "real \<Rightarrow> real \<Rightarrow> npfloat" where
  "np_divide n d =
     (if d \<noteq> 0 then Fin (n / d)
      else if 0 < n then PInf
      else if n < 0 then NInf
      else NaN)"

fun np_arctan :: "npfloat \<Rightarrow> npfloat" where
  "np_arctan (Fin r) = Fin (arctan r)"
| "np_arctan PInf = Fin (pi / 2)"
| "np_arctan NInf = Fin (- (pi / 2))"
| "np_arctan NaN = NaN"

text \<open>\<^verbatim>\<open>v > r\<close> and \<^verbatim>\<open>v < r\<close> for a finite \<open>r\<close>.\<close>

fun np_greater :: "npfloat \<Rightarrow> real \<Rightarrow> bool" where
  "np_greater (Fin v) r = (r < v)"
| "np_greater PInf r = True"
| "np_greater NInf r = False"
| "np_greater NaN r = False"

fun np_less :: "npfloat \<Rightarrow> real \<Rightarrow> bool" where
  "np_less (Fin v) r = (v < r)"
| "np_less PInf r = False"
| "np_less NInf r = True"
| "np_less NaN r = False"

text \<open>\<^verbatim>\<open>v + r\<close> and \<^verbatim>\<open>r - v\<close> for a finite \<open>r\<close>.\<close>

fun np_add :: "npfloat \<Rightarrow> real \<Rightarrow> npfloat" where
  "np_add (Fin v) r = Fin (v + r)"
| "np_add PInf r = PInf"
| "np_add NInf r = NInf"
| "np_add NaN r = NaN"


subsection \<open>Double precision\<close>

text \<open>
  The values of the probability model are numpy doubles: every operation returns the
  double nearest to the exact result, a tie going to the even significand, with gradual
  underflow below \<open>2 powi (- 1022)\<close> and an infinity when the rounded value reaches
  \<open>2 ^ 1024\<close>. A finite double is the real \<open>r\<close> in \<open>Fin r\<close>; the two zeros are not told
  apart.
\<close>

definition binade :: "real \<Rightarrow> int" where
  "binade x = max \<lfloor>log 2 \<bar>x\<bar>\<rfloor> (- 1022)"

text \<open>The spacing of the doubles around \<open>x\<close>: 52 fraction bits below its binade.\<close>

definition ulp :: "real \<Rightarrow> real" where
  "ulp x = 2 powi (binade x - 52)"

text \<open>The nearest integer, a tie going to the even one.\<close>

definition rne :: "real \<Rightarrow> int" where
  "rne q =
     (let f = \<lfloor>q\<rfloor> in
      if q - of_int f < 1 / 2 then f
      else if 1 / 2 < q - of_int f then f + 1
      else if even f then f else f + 1)"

definition round_nearest :: "real \<Rightarrow> real" where
  "round_nearest x = (if x = 0 then 0 else of_int (rne (x / ulp x)) * ulp x)"

definition fl :: "real \<Rightarrow> npfloat" where
  "fl x =
     (let r = round_nearest x in
      if 2 ^ 1024 \<le> \<bar>r\<bar> then (if 0 < x then PInf else NInf) else Fin r)"

text \<open>
  \<^verbatim>\<open>x + y\<close>, \<^verbatim>\<open>x * y\<close> and \<^verbatim>\<open>x / y\<close> on doubles, and \<^verbatim>\<open>np.exp\<close>, which is
  taken to return the double nearest to the exact exponential. Overflow and division
  by zero give an infinity or NaN and raise nothing.
\<close>

fun dbl_add :: "npfloat \<Rightarrow> npfloat \<Rightarrow> npfloat" where
  "dbl_add (Fin x) (Fin y) = fl (x + y)"
| "dbl_add NaN _ = NaN"
| "dbl_add _ NaN = NaN"
| "dbl_add PInf NInf = NaN"
| "dbl_add NInf PInf = NaN"
| "dbl_add PInf _ = PInf"
| "dbl_add _ PInf = PInf"
| "dbl_add NInf _ = NInf"
| "dbl_add _ NInf = NInf"

definition dbl_mul :: "real \<Rightarrow> real \<Rightarrow> npfloat" where
  "dbl_mul x y = fl (x * y)"

fun np_exp :: "npfloat \<Rightarrow> npfloat" where
  "np_exp (Fin x) = fl (exp x)"
| "np_exp PInf = PInf"
| "np_exp NInf = Fin 0"
| "np_exp NaN = NaN"

fun dbl_div :: "npfloat \<Rightarrow> npfloat \<Rightarrow> npfloat" where
  "dbl_div (Fin x) (Fin y) =
     (if y \<noteq> 0 then fl (x / y)
      else if 0 < x then PInf
      else if x < 0 then NInf
      else NaN)"
| "dbl_div NaN _ = NaN"
| "dbl_div _ NaN = NaN"
| "dbl_div (Fin x) _ = Fin 0"
| "dbl_div PInf (Fin y) = (if 0 \<le> y then PInf else NInf)"
| "dbl_div NInf (Fin y) = (if 0 \<le> y then NInf else PInf)"
| "dbl_div _ _ = NaN"

subsection \<open>Shot geometry\<close>

text \<open>
  Line 79, the column \<^verbatim>\<open>shots["Angle"]\<close>:
  \<^verbatim>\<open>np.where(np.arctan(7.32 * X / (X**2 + C**2 - (7.32/2)**2)) > 0,
           np.arctan(...), np.arctan(...) + np.pi)\<close>
\<close>

definition raw_arctan :: "real \<Rightarrow> real \<Rightarrow> npfloat" where
  "raw_arctan X C = np_arctan (np_divide (7.32 * X) (X\<^sup>2 + C\<^sup>2 - (7.32 / 2)\<^sup>2))"

definition Angle :: "real \<Rightarrow> real \<Rightarrow> npfloat" where
  "Angle X C =
     (if np_greater (raw_arctan X C) 0 then raw_arctan X C
      else np_add (raw_arctan X C) pi)"

text \<open>
  Lines 399 to 402, the angle of a cell of the grid \<^verbatim>\<open>pgoal_2d\<close>; \<open>x\<close> and
  \<open>y\<close> are Python integers and the quotient is one of Python floats:
  \<^verbatim>\<open>a = np.arctan(7.32 *x /(x**2 + abs(y-68/2)**2 - (7.32/2)**2))
  if a<0:
      a = np.pi + a\<close>
\<close>

definition grid_angle :: "int \<Rightarrow> int \<Rightarrow> py_error + real" where
  "grid_angle x y =
     (let d = (of_int x)\<^sup>2 + \<bar>of_int y - 68 / 2\<bar>\<^sup>2 - (7.32 / 2)\<^sup>2 in
      if d = 0 then Inl ZeroDivisionError
      else
        (let a = arctan (7.32 * of_int x / d) in
         Inr (if a < 0 then pi + a else a)))"

subsection \<open>Probability model\<close>

text \<open>
  Lines 369 and 383 to 388. The coefficients \<open>b\<close> are the parameters of the fitted
  model, finite doubles read by position; \<open>sh\<close> is a row of the table or a dictionary of
  finite values, read by column name. Reading past the end of \<open>b\<close> or a missing column
  raises. The sum and the probability are computed in doubles.
  \<^verbatim>\<open>def calculate_xG(sh):
     bsum=b[0]
     for i,v in enumerate(model_variables):
         bsum=bsum+b[i+1]*sh[v]
     xG = 1/(1+np.exp(bsum))
     return xG\<close>
\<close>

definition model_variables :: "string list" where
  "model_variables = [''Angle'', ''Distance'', ''X'', ''C'', ''X2'', ''C2'', ''AX'']"

fun bsum_loop :: "real list \<Rightarrow> (string \<rightharpoonup> real) \<Rightarrow> (nat \<times> string) list \<Rightarrow> npfloat \<Rightarrow> py_error + npfloat" where
  "bsum_loop b sh [] bsum = Inr bsum"
| "bsum_loop b sh ((i, v) # rest) bsum =
     (if length b \<le> i + 1 then Inl IndexError
      else
        (case sh v of
           None \<Rightarrow> Inl KeyError
         | Some f \<Rightarrow> bsum_loop b sh rest (dbl_add bsum (dbl_mul (b ! (i + 1)) f))))"

text \<open>The value of \<^verbatim>\<open>bsum\<close> when the loop is left: the linear predictor.\<close>

definition linear_predictor :: "real list \<Rightarrow> (string \<rightharpoonup> real) \<Rightarrow> py_error + npfloat" where
  "linear_predictor b sh =
     (if b = [] then Inl IndexError
      else bsum_loop b sh (enumerate 0 model_variables) (Fin (b ! 0)))"

text \<open>Line 387: \<^verbatim>\<open>1/(1+np.exp(bsum))\<close>.\<close>

definition xG_of_bsum :: "npfloat \<Rightarrow> npfloat" where
  "xG_of_bsum bsum = dbl_div (Fin 1) (dbl_add (Fin 1) (np_exp bsum))"

definition calculate_xG :: "real list \<Rightarrow> (string \<rightharpoonup> real) \<Rightarrow> py_error + npfloat" where
  "calculate_xG b sh =
     (case linear_predictor b sh of
        Inl e \<Rightarrow> Inl e
      | Inr bsum \<Rightarrow> Inr (xG_of_bsum bsum))"

subsection \<open>Evaluation\<close>

text \<open>
  A row of the table \<^verbatim>\<open>shots\<close> after line 392: the column \<^verbatim>\<open>Goal\<close>, the
  numeric columns by name, and the column \<^verbatim>\<open>xG\<close> that line 392 added.
\<close>

record shot =
  Goal :: int
  cols :: "string \<rightharpoonup> real"

record scored_shot = shot +
  xG :: real


text \<open>
  Lines 440 to 460. The four arrays hold, for each threshold, the counts of the inner
  loop; the curve is drawn through the points
  \<^verbatim>\<open>(FP / (FP + TN), TP / (TP + FN))\<close>, quotients of numpy arrays.
\<close>

record roc_counts =
  TP :: nat
  FP :: nat
  TN :: nat
  FN :: nat

definition numobs :: nat where
  "numobs = 100"

text \<open>\<^verbatim>\<open>np.arange(0, 1, 1 / numobs)\<close>\<close>

definition thresholds :: "real list" where
  "thresholds = map (\<lambda>i. 0 + real i * (1 / real numobs)) [0..<numobs]"

text \<open>The body of the inner loop, for one shot.\<close>

definition count_shot :: "real \<Rightarrow> scored_shot \<Rightarrow> roc_counts \<Rightarrow> roc_counts" where
  "count_shot threshold shot c =
     (let c1 =
        (if Goal shot = 1 then
           (if threshold < xG shot then c\<lparr>TP := TP c + 1\<rparr> else c\<lparr>FN := FN c + 1\<rparr>)
         else c)
      in
        (if Goal shot = 0 then
           (if threshold < xG shot then c1\<lparr>FP := FP c1 + 1\<rparr> else c1\<lparr>TN := TN c1 + 1\<rparr>)
         else c1))"

definition count_shots :: "real \<Rightarrow> scored_shot list \<Rightarrow> roc_counts" where
  "count_shots threshold shots =
     fold (count_shot threshold) shots \<lparr>TP = 0, FP = 0, TN = 0, FN = 0\<rparr>"

definition roc_point :: "roc_counts \<Rightarrow> npfloat \<times> npfloat" where
  "roc_point c =
     (np_divide (real (FP c)) (real (FP c) + real (TN c)),
      np_divide (real (TP c)) (real (TP c) + real (FN c)))"

definition roc_curve :: "scored_shot list \<Rightarrow> (npfloat \<times> npfloat) list" where
  "roc_curve shots = map (\<lambda>threshold. roc_point (count_shots threshold shots)) thresholds"

section \<open>Properties of the geometry\<close>

lemma raw_arctan_pos:
  assumes "0 < X"
  shows "\<exists>a. raw_arctan X C = Fin a \<and> - (pi / 2) < a \<and> a \<le> pi / 2 \<and> a \<noteq> 0"
proof (cases "X\<^sup>2 + C\<^sup>2 - (7.32 / 2)\<^sup>2 = 0")
  case True
  with assms have "raw_arctan X C = Fin (pi / 2)"
    by (simp add: raw_arctan_def np_divide_def)
  moreover have "- (pi / 2) < pi / 2" "pi / 2 \<noteq> 0"
    using pi_gt_zero by simp_all
  ultimately show ?thesis by blast
next
  case False
  let ?r = "7.32 * X / (X\<^sup>2 + C\<^sup>2 - (7.32 / 2)\<^sup>2)"
  from False have "raw_arctan X C = Fin (arctan ?r)"
    unfolding raw_arctan_def np_divide_def by (simp only: if_True not_False_eq_True np_arctan.simps)
  moreover from assms False have "?r \<noteq> 0" by simp
  then have "arctan ?r \<noteq> 0" by (simp only: arctan_eq_zero_iff not_False_eq_True)
  moreover have "- (pi / 2) < arctan ?r" by (rule arctan_lbound)
  moreover have "arctan ?r \<le> pi / 2" by (rule less_imp_le [OF arctan_ubound])
  ultimately show ?thesis by blast
qed

text \<open>
  C6. For every shot location with \<open>X > 0\<close> the angle of line 79 is a number strictly
  between 0 and \<open>\<pi>\<close>.
\<close>

theorem Angle_open_interval:
  "0 < X \<Longrightarrow> \<exists>a. Angle X C = Fin a \<and> 0 < a \<and> a < pi"
proof -
  assume "0 < X"
  then obtain a where a: "raw_arctan X C = Fin a" "- (pi / 2) < a" "a \<le> pi / 2" "a \<noteq> 0"
    using raw_arctan_pos by blast
  show ?thesis
  proof (cases "0 < a")
    case True
    with a show ?thesis by (simp add: Angle_def)
  next
    case False
    with a show ?thesis by (simp add: Angle_def)
  qed
qed

theorem Angle_open_interval_witness:
  "(0::real) < 11 \<and> (\<exists>a. Angle 11 0 = Fin a \<and> 0 < a \<and> a < pi)"
  using Angle_open_interval [of 11 0] by simp

lemma raw_arctan_Fin:
  assumes "X\<^sup>2 + C\<^sup>2 - (7.32 / 2)\<^sup>2 \<noteq> 0"
  shows "raw_arctan X C = Fin (arctan (7.32 * X / (X\<^sup>2 + C\<^sup>2 - (7.32 / 2)\<^sup>2)))"
  using assms unfolding raw_arctan_def np_divide_def
  by (simp only: if_True not_False_eq_True np_arctan.simps)

lemma raw_arctan_goal_line: "X\<^sup>2 + C\<^sup>2 \<noteq> (7.32 / 2)\<^sup>2 \<Longrightarrow> X = 0 \<Longrightarrow> raw_arctan X C = Fin 0"
  by (simp add: raw_arctan_Fin)

lemma grid_denominator_nonzero:
  "(of_int x)\<^sup>2 + \<bar>of_int y - 68 / 2\<bar>\<^sup>2 - (7.32 / 2)\<^sup>2 \<noteq> (0::real)"
proof
  assume eq: "(of_int x)\<^sup>2 + \<bar>of_int y - 68 / 2\<bar>\<^sup>2 - (7.32 / 2)\<^sup>2 = (0::real)"
  have "\<bar>of_int y - 68 / 2\<bar>\<^sup>2 = (of_int ((y - 34)\<^sup>2) :: real)"
    by simp
  with eq have "(of_int (x\<^sup>2 + (y - 34)\<^sup>2) :: real) = (7.32 / 2)\<^sup>2"
    by simp
  then have "(of_int (2500 * (x\<^sup>2 + (y - 34)\<^sup>2)) :: real) = of_int 33489"
    by (simp add: power2_eq_square)
  then have "2500 * (x\<^sup>2 + (y - 34)\<^sup>2) = (33489::int)"
    by (simp only: of_int_eq_iff)
  then have "(2500::int) dvd 33489" by (metis dvd_triv_left)
  then show False by simp
qed

lemma Angle_goal_line: "C\<^sup>2 \<noteq> (7.32 / 2)\<^sup>2 \<Longrightarrow> Angle 0 C = Fin pi"
  by (simp add: Angle_def raw_arctan_goal_line)

lemma grid_angle_goal_line: "grid_angle 0 y = Inr 0"
  using grid_denominator_nonzero [of 0 y] by (simp add: grid_angle_def Let_def)

text \<open>
  C1. Line 79 selects the raw arctangent only when it is \<^verbatim>\<open>> 0\<close> and the raw
  arctangent plus \<open>\<pi>\<close> otherwise, so \<open>\<pi>\<close> is also added when the raw arctangent is 0 and
  not negative. That is the case on the goal line: at \<open>X = 0\<close>, \<open>C = 10\<close> the column holds
  \<open>\<pi>\<close>, where the grid computation of the same point (cell \<open>x = 0\<close>, \<open>y = 44\<close>, tested
  with \<^verbatim>\<open>a<0\<close>) holds 0.
\<close>

theorem Angle_on_goal_line:
  "raw_arctan 0 10 = Fin 0 \<and> \<not> np_less (raw_arctan 0 10) 0
     \<and> Angle 0 10 = np_add (raw_arctan 0 10) pi \<and> Angle 0 10 = Fin pi
     \<and> grid_angle 0 44 = Inr 0"
proof -
  have r: "raw_arctan 0 10 = Fin 0"
    by (rule raw_arctan_goal_line) (simp_all add: power2_eq_square)
  then have "Angle 0 10 = Fin pi" by (simp add: Angle_def)
  moreover have "grid_angle 0 44 = Inr 0" by (rule grid_angle_goal_line)
  ultimately show ?thesis using r by simp
qed

text \<open>
  C2. At \<open>X = 0\<close>, \<open>C = 0\<close> the raw arctangent is \<open>arctan (0 / - (7.32/2)\<^sup>2) = 0\<close> in
  both computations. The grid computation (cell \<open>x = 0\<close>, \<open>y = 34\<close>, tested with
  \<^verbatim>\<open>a<0\<close>) leaves it at 0 and applies no correction; the column of line 79 (tested
  with \<^verbatim>\<open>> 0\<close>) adds \<open>\<pi>\<close> to it.
\<close>

theorem angle_at_origin:
  "raw_arctan 0 0 = Fin 0 \<and> grid_angle 0 34 = Inr 0 \<and> Angle 0 0 = Fin pi"
proof -
  have r: "raw_arctan 0 0 = Fin 0"
    by (rule raw_arctan_goal_line) (simp_all add: power2_eq_square)
  then have "Angle 0 0 = Fin pi" by (simp add: Angle_def)
  moreover have "grid_angle 0 34 = Inr 0"
    by (simp add: grid_angle_def Let_def power2_eq_square)
  ultimately show ?thesis using r by simp
qed

text \<open>
  C10. For every cell of the grid with \<open>x > 0\<close> (indeed for all integers \<open>x > 0\<close> and
  \<open>y\<close>), the grid computation returns an angle, and the column computation of line 79
  at \<open>X = x\<close>, \<open>C = |y - 68/2|\<close> gives the same one.
\<close>

theorem grid_angle_eq_Angle:
  "0 < x \<Longrightarrow> \<exists>a. grid_angle x y = Inr a \<and> Angle (of_int x) \<bar>of_int y - 68 / 2\<bar> = Fin a"
proof -
  assume x: "0 < x"
  let ?d = "(of_int x)\<^sup>2 + \<bar>of_int y - 68 / 2\<bar>\<^sup>2 - (7.32 / 2)\<^sup>2 :: real"
  let ?a = "arctan (7.32 * of_int x / ?d)"
  have d: "?d \<noteq> 0" by (rule grid_denominator_nonzero)
  from x d have "7.32 * of_int x / ?d \<noteq> 0" by simp
  then have a0: "?a \<noteq> 0" by (simp only: arctan_eq_zero_iff not_False_eq_True)
  from d have raw: "raw_arctan (of_int x) \<bar>of_int y - 68 / 2\<bar> = Fin ?a"
    by (rule raw_arctan_Fin)
  from d have g: "grid_angle x y = Inr (if ?a < 0 then pi + ?a else ?a)"
    unfolding grid_angle_def Let_def by (simp only: if_False)
  have "Angle (of_int x) \<bar>of_int y - 68 / 2\<bar> = Fin (if ?a < 0 then pi + ?a else ?a)"
    unfolding Angle_def raw using a0 by (simp add: add.commute)
  with g show ?thesis by blast
qed

theorem grid_angle_eq_Angle_witness:
  "(0::int) < 11 \<and> (\<exists>a. grid_angle 11 34 = Inr a \<and> Angle (of_int 11) \<bar>of_int 34 - 68 / 2\<bar> = Fin a)"
  using grid_angle_eq_Angle [of 11 34] by simp

section \<open>Properties of rounding to double\<close>

lemma rne_of_int: "rne (of_int k) = k"
  by (simp add: rne_def)

lemma rne_bounds: "\<lfloor>q\<rfloor> \<le> rne q \<and> rne q \<le> \<lfloor>q\<rfloor> + 1"
  by (simp add: rne_def Let_def)

lemma rne_mono: "q \<le> q' \<Longrightarrow> rne q \<le> rne q'"
proof -
  assume le: "q \<le> q'"
  then have f: "\<lfloor>q\<rfloor> \<le> \<lfloor>q'\<rfloor>" by (rule floor_mono)
  show ?thesis
  proof (cases "\<lfloor>q\<rfloor> = \<lfloor>q'\<rfloor>")
    case True
    with le show ?thesis by (auto simp add: rne_def Let_def)
  next
    case False
    with f have "\<lfloor>q\<rfloor> + 1 \<le> \<lfloor>q'\<rfloor>" by simp
    with rne_bounds [of q] rne_bounds [of q'] show ?thesis by linarith
  qed
qed

lemma binade_cases:
  assumes "x \<noteq> 0"
  shows "\<bar>x\<bar> < 2 powi (binade x + 1)"
    and "- 1022 \<le> binade x"
    and "2 powi binade x \<le> \<bar>x\<bar> \<or> (binade x = - 1022 \<and> \<bar>x\<bar> < 2 powi (- 1022))"
proof -
  let ?k = "\<lfloor>log 2 \<bar>x\<bar>\<rfloor>"
  from assms have pos: "0 < \<bar>x\<bar>" by simp
  have p1: "(2::real) powr (of_int ?k) = 2 powi ?k"
    by (rule powr_real_of_int') simp_all
  have p2: "(2::real) powr (of_int ?k + 1) = 2 powi (?k + 1)"
    using powr_real_of_int' [of "2::real" "?k + 1"] by simp
  have "2 powr (of_int ?k) \<le> \<bar>x\<bar> \<and> \<bar>x\<bar> < 2 powr (of_int ?k + 1)"
    using floor_log_eq_powr_iff [OF pos, of 2 ?k] by simp
  then have k: "2 powi ?k \<le> \<bar>x\<bar>" "\<bar>x\<bar> < 2 powi (?k + 1)"
    unfolding p1 p2 by simp_all
  show "- 1022 \<le> binade x" by (simp add: binade_def)
  have "(2::real) powi (?k + 1) \<le> 2 powi (binade x + 1)"
    by (rule power_int_increasing) (simp_all add: binade_def)
  with k(2) show "\<bar>x\<bar> < 2 powi (binade x + 1)" by linarith
  show "2 powi binade x \<le> \<bar>x\<bar> \<or> (binade x = - 1022 \<and> \<bar>x\<bar> < 2 powi (- 1022))"
  proof (cases "- 1022 \<le> ?k")
    case True
    then have "binade x = ?k" by (simp add: binade_def)
    with k(1) show ?thesis by simp
  next
    case False
    then have b: "binade x = - 1022" by (simp add: binade_def)
    from False have "?k + 1 \<le> - 1022" by linarith
    then have "(2::real) powi (?k + 1) \<le> 2 powi (- 1022)"
      by (rule power_int_increasing) simp
    with k(2) b show ?thesis by simp
  qed
qed

lemma ulp_pos: "0 < ulp x"
  by (simp add: ulp_def)

lemma binade_mono: "0 < x \<Longrightarrow> x \<le> y \<Longrightarrow> binade x \<le> binade y"
proof -
  assume "0 < x" "x \<le> y"
  then have "log 2 \<bar>x\<bar> \<le> log 2 \<bar>y\<bar>" by simp
  then have "\<lfloor>log 2 \<bar>x\<bar>\<rfloor> \<le> \<lfloor>log 2 \<bar>y\<bar>\<rfloor>" by (rule floor_mono)
  then show ?thesis by (simp add: binade_def)
qed

lemma round_nearest_pos:
  assumes "0 < x"
  shows "0 \<le> round_nearest x"
    and "round_nearest x \<le> 2 powi (binade x + 1)"
    and "2 powi binade x \<le> x \<Longrightarrow> 2 powi binade x \<le> round_nearest x"
proof -
  let ?e = "binade x"
  let ?u = "ulp x"
  let ?q = "x / ?u"
  have u: "0 < ?u" by (rule ulp_pos)
  from assms have x0: "x \<noteq> 0" by simp
  then have rn: "round_nearest x = of_int (rne ?q) * ?u" by (simp add: round_nearest_def)
  have up: "2 powi (?e + 1) = of_int (2 ^ 53) * ?u"
    by (simp add: ulp_def power_int_diff power_int_add)
  have lo: "2 powi ?e = of_int (2 ^ 52) * ?u"
    by (simp add: ulp_def power_int_diff)
  from assms u have "of_int 0 \<le> ?q" by simp
  then have "rne (of_int 0) \<le> rne ?q" by (rule rne_mono)
  then have "0 \<le> rne ?q" by (simp only: rne_of_int)
  with u show "0 \<le> round_nearest x" unfolding rn by simp
  from binade_cases(1) [OF x0] assms have "x < of_int (2 ^ 53) * ?u"
    unfolding up by simp
  with u have "?q \<le> of_int (2 ^ 53)" by (simp add: pos_divide_le_eq)
  then have "rne ?q \<le> rne (of_int (2 ^ 53))" by (rule rne_mono)
  then have "rne ?q \<le> 2 ^ 53" by (simp only: rne_of_int)
  then have "(of_int (rne ?q) :: real) \<le> of_int (2 ^ 53)" by (simp only: of_int_le_iff)
  then have "of_int (rne ?q) * ?u \<le> of_int (2 ^ 53) * ?u"
    by (rule mult_right_mono) (rule less_imp_le [OF u])
  then show "round_nearest x \<le> 2 powi (?e + 1)"
    unfolding rn up .
  assume "2 powi ?e \<le> x"
  then have "of_int (2 ^ 52) * ?u \<le> x" unfolding lo .
  with u have "of_int (2 ^ 52) \<le> ?q" by (simp add: pos_le_divide_eq)
  then have "rne (of_int (2 ^ 52)) \<le> rne ?q" by (rule rne_mono)
  then have "2 ^ 52 \<le> rne ?q" by (simp only: rne_of_int)
  then have "(of_int (2 ^ 52) :: real) \<le> of_int (rne ?q)" by (simp only: of_int_le_iff)
  then have "of_int (2 ^ 52) * ?u \<le> of_int (rne ?q) * ?u"
    by (rule mult_right_mono) (rule less_imp_le [OF u])
  then show "2 powi ?e \<le> round_nearest x"
    unfolding rn lo .
qed

lemma round_nearest_mono:
  assumes "0 < x" and "x \<le> y"
  shows "round_nearest x \<le> round_nearest y"
proof -
  from assms have y: "0 < y" by simp
  from assms have e: "binade x \<le> binade y" by (rule binade_mono)
  show ?thesis
  proof (cases "binade x = binade y")
    case True
    then have u: "ulp x = ulp y" by (simp add: ulp_def)
    have "0 < ulp y" by (rule ulp_pos)
    with assms(2) have "x / ulp y \<le> y / ulp y" by (simp add: divide_right_mono)
    then have "rne (x / ulp y) \<le> rne (y / ulp y)" by (rule rne_mono)
    then have "(of_int (rne (x / ulp y)) :: real) \<le> of_int (rne (y / ulp y))"
      by (simp only: of_int_le_iff)
    then have "of_int (rne (x / ulp y)) * ulp y \<le> of_int (rne (y / ulp y)) * ulp y"
      by (rule mult_right_mono) (rule less_imp_le [OF ulp_pos])
    with assms(1) y u show ?thesis by (simp add: round_nearest_def)
  next
    case False
    with e have lt: "binade x + 1 \<le> binade y" by simp
    from y have y0: "y \<noteq> 0" by simp
    from assms(1) have x0: "x \<noteq> 0" by simp
    from binade_cases(2) [OF x0] lt have "binade y \<noteq> - 1022" by linarith
    with binade_cases(3) [OF y0] y have "2 powi binade y \<le> y" by simp
    then have "2 powi binade y \<le> round_nearest y" by (rule round_nearest_pos(3) [OF y])
    moreover from lt have "(2::real) powi (binade x + 1) \<le> 2 powi binade y"
      by (rule power_int_increasing) simp
    moreover have "round_nearest x \<le> 2 powi (binade x + 1)"
      by (rule round_nearest_pos(2) [OF assms(1)])
    ultimately show ?thesis by linarith
  qed
qed

lemma round_nearest_of_int:
  assumes "\<bar>k\<bar> < 2 ^ 53"
  shows "round_nearest (of_int k) = of_int k"
proof (cases "k = 0")
  case True
  then show ?thesis by (simp add: round_nearest_def)
next
  case False
  let ?x = "of_int k :: real"
  let ?e = "binade ?x"
  from False have x0: "?x \<noteq> 0" by simp
  from False have "1 \<le> \<bar>?x\<bar>" by (simp flip: of_int_abs)
  then have "0 \<le> log 2 \<bar>?x\<bar>" by simp
  then have lo: "0 \<le> ?e" by (simp add: binade_def)
  from assms have "\<bar>?x\<bar> < 2 ^ 53"
    by (metis of_int_abs of_int_less_iff of_int_numeral of_int_power)
  have hi: "?e \<le> 52"
  proof (rule ccontr)
    assume "\<not> ?e \<le> 52"
    then have "53 \<le> ?e" by simp
    then have "(2::real) powi 53 \<le> 2 powi ?e" by (rule power_int_increasing) simp
    moreover from lo binade_cases(3) [OF x0] have "2 powi ?e \<le> \<bar>?x\<bar>" by auto
    ultimately show False using \<open>\<bar>?x\<bar> < 2 ^ 53\<close> by simp
  qed
  from lo hi have n: "52 - ?e = int (nat (52 - ?e))" by simp
  have "?x / ulp ?x = ?x * 2 powi (52 - ?e)"
    by (simp add: ulp_def power_int_diff)
  also have "\<dots> = ?x * 2 ^ nat (52 - ?e)"
    by (subst n) (simp only: power_int_of_nat)
  also have "\<dots> = of_int (k * 2 ^ nat (52 - ?e))" by simp
  finally have q: "?x / ulp ?x = of_int (k * 2 ^ nat (52 - ?e))" .
  have "round_nearest ?x = of_int (rne (?x / ulp ?x)) * ulp ?x"
    using x0 by (simp add: round_nearest_def)
  also have "\<dots> = (?x / ulp ?x) * ulp ?x"
    unfolding q by (simp only: rne_of_int)
  also have "\<dots> = ?x" using ulp_pos [of ?x] by simp
  finally show ?thesis .
qed

lemma fl_of_int: "\<bar>k\<bar> < 2 ^ 53 \<Longrightarrow> fl (of_int k) = Fin (of_int k)"
proof -
  assume k: "\<bar>k\<bar> < 2 ^ 53"
  then have r: "round_nearest (of_int k) = of_int k" by (rule round_nearest_of_int)
  from k have "\<bar>k\<bar> < 2 ^ 1024" by (rule less_trans) simp
  then have "\<bar>of_int k :: real\<bar> < 2 ^ 1024"
    by (metis of_int_abs of_int_less_iff of_int_numeral of_int_power)
  then show ?thesis by (simp add: fl_def r)
qed

lemma binade_unit: "1 \<le> x \<Longrightarrow> x < 2 \<Longrightarrow> binade x = 0"
proof -
  assume x: "1 \<le> x" "x < 2"
  then have "\<lfloor>log 2 x\<rfloor> = 0"
    using floor_log_eq_powr_iff [of x 2 0] by simp
  with x show ?thesis by (simp add: binade_def)
qed

lemma rne_near_even:
  assumes "of_int z \<le> q" and "q \<le> of_int z + 1 / 2" and "even z"
  shows "rne q = z"
proof -
  from assms(1,2) have f: "\<lfloor>q\<rfloor> = z" by (intro floor_unique) linarith+
  show ?thesis unfolding rne_def Let_def f using assms by auto
qed

lemma round_nearest_one_plus:
  assumes "0 \<le> d" and "d \<le> 2 powi (- 53)"
  shows "round_nearest (1 + d) = 1"
proof -
  let ?x = "1 + d"
  have small: "(2::real) powi (- 53) * 2 ^ 52 = 1 / 2"
    by (simp add: power_int_minus field_simps)
  from assms have dq: "0 \<le> d * 2 ^ 52" "d * 2 ^ 52 \<le> 1 / 2"
    using mult_right_mono [of d "2 powi (- 53)" "2 ^ 52"] small by simp_all
  from assms have "d \<le> 2 powi (- 53)" by simp
  also have "(2::real) powi (- 53) < 1" by (simp add: power_int_minus field_simps)
  finally have x: "1 \<le> ?x" "?x < 2" using assms(1) by simp_all
  then have b: "binade ?x = 0" by (rule binade_unit)
  then have u: "ulp ?x = 2 powi (- 52)" by (simp add: ulp_def)
  have q: "?x / ulp ?x = of_int (2 ^ 52) + d * 2 ^ 52"
    unfolding u by (simp add: power_int_minus field_simps)
  have "rne (?x / ulp ?x) = 2 ^ 52"
    unfolding q by (rule rne_near_even) (use dq in simp_all)
  moreover from x have "?x \<noteq> 0" by simp
  ultimately have "round_nearest ?x = of_int (2 ^ 52) * ulp ?x"
    by (simp add: round_nearest_def)
  then show ?thesis unfolding u by (simp add: power_int_minus)
qed


lemma fl_pos_cases:
  assumes "0 < x"
  shows "fl x = PInf \<and> 2 ^ 1024 \<le> round_nearest x
       \<or> fl x = Fin (round_nearest x) \<and> 0 \<le> round_nearest x \<and> round_nearest x < 2 ^ 1024"
proof -
  from assms have "0 \<le> round_nearest x" by (rule round_nearest_pos(1))
  with assms show ?thesis by (auto simp add: fl_def Let_def)
qed

lemma exp_one_lower: "271 / 100 \<le> exp (1::real)"
proof -
  have "1 + (1 / 8) + (1 / 8)\<^sup>2 / 2 \<le> exp (1 / 8 :: real)"
    by (rule exp_lower_Taylor_quadratic) simp
  then have "145 / 128 \<le> exp (1 / 8 :: real)" by (simp add: power2_eq_square)
  then have "(145 / 128) ^ 8 \<le> exp (1 / 8 :: real) ^ 8"
    by (rule power_mono) simp
  also have "exp (1 / 8 :: real) ^ 8 = exp 1"
    using exp_of_nat_mult [of 8 "1 / 8 :: real"] by simp
  finally have "(145 / 128) ^ 8 \<le> exp (1::real)" .
  moreover have "(271 / 100 :: real) \<le> (145 / 128) ^ 8" by (simp add: power_divide)
  ultimately show ?thesis by linarith
qed

lemma exp_nat_lower: "(271 / 100) ^ n \<le> exp (real n)"
proof -
  have "(271 / 100 :: real) ^ n \<le> exp 1 ^ n"
    by (rule power_mono [OF exp_one_lower]) simp
  also have "\<dots> = exp (real n)" using exp_of_nat_mult [of n "1::real"] by simp
  finally show ?thesis .
qed

lemma pow_271_37: "(2::real) ^ 53 \<le> (271 / 100) ^ 37"
  by (simp add: power_divide)


lemma round_nearest_one: "round_nearest 1 = 1"
  using round_nearest_of_int [of 1] by simp

lemma fl_one: "fl 1 = Fin 1"
  using fl_of_int [of 1] by simp

lemma fl_zero: "fl 0 = Fin 0"
  using fl_of_int [of 0] by simp

lemma fl_pos_mono:
  assumes "0 < x" and "x \<le> y"
  shows "fl y = PInf
       \<or> (\<exists>r s. fl x = Fin r \<and> fl y = Fin s \<and> r = round_nearest x \<and> s = round_nearest y
             \<and> 0 \<le> r \<and> r \<le> s)"
proof -
  from assms have y: "0 < y" by simp
  have m: "round_nearest x \<le> round_nearest y" using assms by (rule round_nearest_mono)
  from fl_pos_cases [OF y] show ?thesis
  proof
    assume "fl y = PInf \<and> 2 ^ 1024 \<le> round_nearest y"
    then show ?thesis by simp
  next
    assume fy: "fl y = Fin (round_nearest y) \<and> 0 \<le> round_nearest y \<and> round_nearest y < 2 ^ 1024"
    with m have "round_nearest x < 2 ^ 1024" by linarith
    with fl_pos_cases [OF assms(1)] have "fl x = Fin (round_nearest x) \<and> 0 \<le> round_nearest x"
      by auto
    with fy m show ?thesis by simp
  qed
qed

lemma round_nearest_below_pow:
  assumes "0 < x" and "x < 2 powi k" and "- 1021 \<le> k"
  shows "round_nearest x \<le> 2 powi k"
proof -
  from assms(1) have x0: "x \<noteq> 0" by simp
  have "binade x + 1 \<le> k"
  proof (rule ccontr)
    assume "\<not> binade x + 1 \<le> k"
    then have ke: "k \<le> binade x" by simp
    then have p: "(2::real) powi k \<le> 2 powi binade x" by (rule power_int_increasing) simp
    from ke assms(3) have "binade x \<noteq> - 1022" by simp
    with binade_cases(3) [OF x0] assms(1) have "2 powi binade x \<le> x" by simp
    with p assms(2) show False by simp
  qed
  then have "(2::real) powi (binade x + 1) \<le> 2 powi k" by (rule power_int_increasing) simp
  with round_nearest_pos(2) [OF assms(1)] show ?thesis by linarith
qed

lemma exp_small: "t \<le> - 37 \<Longrightarrow> exp (t::real) < 2 powi (- 53)"
proof -
  assume "t \<le> - 37"
  then have "exp t \<le> exp (- 37 :: real)" by simp
  also have "\<dots> = 1 / exp (real 37)" by (simp add: exp_minus field_simps)
  also have "\<dots> \<le> 1 / (271 / 100) ^ 37"
    by (rule divide_left_mono [OF exp_nat_lower]) simp_all
  also have "\<dots> < 1 / 2 ^ 53" by (simp add: power_divide)
  finally show ?thesis by (simp add: power_int_minus field_simps)
qed


lemma xG_of_bsum_saturates_one: "t \<le> - 37 \<Longrightarrow> xG_of_bsum (Fin t) = Fin 1"
proof -
  assume "t \<le> - 37"
  then have small: "exp t < 2 powi (- 53)" by (rule exp_small)
  have pos: "0 < exp t" by (rule exp_gt_zero)
  have up: "round_nearest (exp t) \<le> 2 powi (- 53)"
    using pos small by (rule round_nearest_below_pow) simp
  also have "(2::real) powi (- 53) < 2 ^ 1024" by (simp add: power_int_minus field_simps)
  finally have "\<not> 2 ^ 1024 \<le> round_nearest (exp t)" by simp
  with fl_pos_cases [OF pos] have e: "fl (exp t) = Fin (round_nearest (exp t))"
    and e0: "0 \<le> round_nearest (exp t)" by auto
  from e0 up have "round_nearest (1 + round_nearest (exp t)) = 1"
    by (rule round_nearest_one_plus)
  then have "fl (1 + round_nearest (exp t)) = Fin 1" by (simp add: fl_def)
  then show ?thesis by (simp add: xG_of_bsum_def e fl_one)
qed


lemma fl_ge_one_mono:
  assumes "1 \<le> x" and "x \<le> y"
  shows "fl y = PInf \<or> (\<exists>d d'. fl x = Fin d \<and> fl y = Fin d' \<and> 1 \<le> d \<and> d \<le> d')"
proof -
  from assms(1) have x: "0 < x" by simp
  have "round_nearest 1 \<le> round_nearest x"
    by (rule round_nearest_mono) (use assms(1) in simp_all)
  then have "1 \<le> round_nearest x" by (simp only: round_nearest_one)
  with fl_pos_mono [OF x assms(2)] show ?thesis by auto
qed

lemma fl_recip_mono:
  assumes "1 \<le> d" and "d \<le> d'"
  shows "\<exists>p p'. fl (1 / d) = Fin p \<and> fl (1 / d') = Fin p' \<and> 0 \<le> p' \<and> p' \<le> p \<and> p \<le> 1"
proof -
  from assms have d: "0 < d" and d': "0 < d'" by simp_all
  then have q': "0 < 1 / d'" by simp
  from assms d have le: "1 / d' \<le> 1 / d" by (simp add: frac_le)
  from assms(1) d have one: "1 / d \<le> 1" by simp
  from d have q: "0 < 1 / d" by simp
  have "round_nearest (1 / d) \<le> round_nearest 1" using q one by (rule round_nearest_mono)
  then have r1: "round_nearest (1 / d) \<le> 1" by (simp only: round_nearest_one)
  then have "\<not> 2 ^ 1024 \<le> round_nearest (1 / d)" by simp
  with fl_pos_cases [OF q] have "fl (1 / d) \<noteq> PInf" by auto
  with fl_pos_mono [OF q' le] r1 show ?thesis by auto
qed

lemma xG_of_bsum_range: "\<exists>p. xG_of_bsum (Fin t) = Fin p \<and> 0 \<le> p \<and> p \<le> 1"
proof -
  have pos: "0 < exp t" by (rule exp_gt_zero)
  from fl_pos_cases [OF pos] show ?thesis
  proof
    assume "fl (exp t) = PInf \<and> 2 ^ 1024 \<le> round_nearest (exp t)"
    then show ?thesis by (simp add: xG_of_bsum_def)
  next
    assume "fl (exp t) = Fin (round_nearest (exp t)) \<and> 0 \<le> round_nearest (exp t)
      \<and> round_nearest (exp t) < 2 ^ 1024"
    then obtain e where e: "fl (exp t) = Fin e" "0 \<le> e" by blast
    then have "1 \<le> 1 + e" by simp
    from fl_ge_one_mono [OF this order_refl] show ?thesis
    proof
      assume "fl (1 + e) = PInf"
      with e show ?thesis by (simp add: xG_of_bsum_def)
    next
      assume "\<exists>d d'. fl (1 + e) = Fin d \<and> fl (1 + e) = Fin d' \<and> 1 \<le> d \<and> d \<le> d'"
      then obtain d where d: "fl (1 + e) = Fin d" "1 \<le> d" by blast
      from fl_recip_mono [OF d(2) order_refl] obtain p where
        "fl (1 / d) = Fin p" "0 \<le> p" "p \<le> 1" by auto
      moreover from d(2) have "d \<noteq> 0" by simp
      ultimately show ?thesis using e d by (simp add: xG_of_bsum_def)
    qed
  qed
qed

lemma xG_of_bsum_mono:
  assumes "t \<le> t'"
  shows "\<exists>p p'. xG_of_bsum (Fin t) = Fin p \<and> xG_of_bsum (Fin t') = Fin p'
           \<and> 0 \<le> p' \<and> p' \<le> p \<and> p \<le> 1"
proof -
  obtain p where p: "xG_of_bsum (Fin t) = Fin p" "0 \<le> p" "p \<le> 1"
    using xG_of_bsum_range by blast
  have pos: "0 < exp t" by (rule exp_gt_zero)
  from assms have le: "exp t \<le> exp t'" by simp
  from fl_pos_mono [OF pos le] show ?thesis
  proof
    assume "fl (exp t') = PInf"
    then have "xG_of_bsum (Fin t') = Fin 0" by (simp add: xG_of_bsum_def)
    with p show ?thesis by simp
  next
    assume "\<exists>r s. fl (exp t) = Fin r \<and> fl (exp t') = Fin s \<and> r = round_nearest (exp t)
      \<and> s = round_nearest (exp t') \<and> 0 \<le> r \<and> r \<le> s"
    then obtain e e' where e: "fl (exp t) = Fin e" "fl (exp t') = Fin e'" "0 \<le> e" "e \<le> e'"
      by blast
    then have "1 \<le> 1 + e" "1 + e \<le> 1 + e'" by simp_all
    from fl_ge_one_mono [OF this] show ?thesis
    proof
      assume "fl (1 + e') = PInf"
      with e have "xG_of_bsum (Fin t') = Fin 0" by (simp add: xG_of_bsum_def)
      with p show ?thesis by simp
    next
      assume "\<exists>d d'. fl (1 + e) = Fin d \<and> fl (1 + e') = Fin d' \<and> 1 \<le> d \<and> d \<le> d'"
      then obtain d d' where d: "fl (1 + e) = Fin d" "fl (1 + e') = Fin d'" "1 \<le> d" "d \<le> d'"
        by blast
      from fl_recip_mono [OF d(3,4)] obtain q q' where
        q: "fl (1 / d) = Fin q" "fl (1 / d') = Fin q'" "0 \<le> q'" "q' \<le> q" "q \<le> 1" by blast
      from d have "d \<noteq> 0" "d' \<noteq> 0" by simp_all
      with e d q have "xG_of_bsum (Fin t) = Fin q" "xG_of_bsum (Fin t') = Fin q'"
        by (simp_all add: xG_of_bsum_def)
      with q show ?thesis by simp
    qed
  qed
qed

lemma binade_pow2: "- 1022 \<le> k \<Longrightarrow> binade (2 powi k) = k"
proof -
  assume k: "- 1022 \<le> k"
  have p1: "(2::real) powr (of_int k) = 2 powi k"
    by (rule powr_real_of_int') simp_all
  have p2: "(2::real) powr (of_int k + 1) = 2 powi (k + 1)"
    using powr_real_of_int' [of "2::real" "k + 1"] by simp
  have "(2::real) powi k < 2 powi (k + 1)"
    by (rule power_int_strict_increasing) simp_all
  then have "2 powr (of_int k) \<le> (2::real) powi k \<and> (2::real) powi k < 2 powr (of_int k + 1)"
    unfolding p1 p2 by simp
  then have "\<lfloor>log 2 (2 powi k :: real)\<rfloor> = k"
    using floor_log_eq_powr_iff [of "2 powi k :: real" 2 k] by simp
  with k show ?thesis by (simp add: binade_def)
qed

lemma round_nearest_pow2: "- 1022 \<le> k \<Longrightarrow> round_nearest (2 powi k) = 2 powi k"
proof -
  assume k: "- 1022 \<le> k"
  let ?x = "2 powi k :: real"
  have u: "ulp ?x = 2 powi (k - 52)" by (simp add: ulp_def binade_pow2 [OF k])
  have "?x / ulp ?x = 2 powi 52" unfolding u by (simp add: power_int_diff)
  also have "\<dots> = of_int (2 ^ 52)" by simp
  finally have q: "?x / ulp ?x = of_int (2 ^ 52)" .
  have "round_nearest ?x = of_int (rne (?x / ulp ?x)) * ulp ?x"
    by (simp add: round_nearest_def)
  also have "\<dots> = (?x / ulp ?x) * ulp ?x" unfolding q by (simp only: rne_of_int)
  also have "\<dots> = ?x" using ulp_pos [of ?x] by simp
  finally show ?thesis .
qed

lemma fl_pow2: "- 1022 \<le> k \<Longrightarrow> k \<le> 0 \<Longrightarrow> fl (2 powi k) = Fin (2 powi k)"
proof -
  assume k: "- 1022 \<le> k" "k \<le> 0"
  then have "(2::real) powi k \<le> 2 powi 0" by (intro power_int_increasing) simp_all
  then have "\<bar>2 powi k :: real\<bar> < 2 ^ 1024" by simp
  with round_nearest_pow2 [OF k(1)] show ?thesis by (simp add: fl_def)
qed

lemma xG_of_bsum_near_zero:
  assumes "0 \<le> t" and "t \<le> 2 powi (- 60)"
  shows "xG_of_bsum (Fin t) = Fin (1 / 2)"
proof -
  have s: "(2::real) powi (- 60) \<le> 1" "(2::real) powi (- 60) * 2 \<le> 2 powi (- 53)"
    by (simp_all add: power_int_minus field_simps)
  from assms s have t1: "t \<le> 1" by linarith
  with assms(1) have "exp t \<le> 1 + t + t\<^sup>2" by (rule exp_bound)
  moreover from assms(1) t1 have "t\<^sup>2 \<le> t"
    unfolding power2_eq_square using mult_left_le_one_le [of t t] by simp
  ultimately have up: "exp t - 1 \<le> 2 powi (- 53)" using assms(2) s(2) by linarith
  from assms(1) have lo: "0 \<le> exp t - 1" by simp
  from round_nearest_one_plus [OF lo up] have "round_nearest (exp t) = 1" by simp
  then have e: "fl (exp t) = Fin 1" by (simp add: fl_def)
  have two: "fl 2 = Fin 2" using fl_of_int [of 2] by simp
  have half: "fl (1 / 2) = Fin (1 / 2)" using fl_pow2 [of "- 1"] by (simp add: power_int_minus)
  show ?thesis by (simp add: xG_of_bsum_def e two half)
qed

section \<open>Properties of the probability model\<close>

lemma calculate_xG_Inr:
  "linear_predictor b sh = Inr bsum \<Longrightarrow> calculate_xG b sh = Inr (xG_of_bsum bsum)"
  by (simp add: calculate_xG_def)

lemma fl_numerals:
  "fl (- 37) = Fin (- 37)" "fl (- 50) = Fin (- 50)" "fl (- 40) = Fin (- 40)"
  "fl 1000 = Fin 1000"
  using fl_of_int [of "- 37"] fl_of_int [of "- 50"] fl_of_int [of "- 40"] fl_of_int [of 1000]
  by simp_all

lemma linear_predictor_intercept:
  "fl c = Fin c \<Longrightarrow>
   linear_predictor [c, 0, 0, 0, 0, 0, 0, 0]
     (map_of [(''Angle'', 1), (''Distance'', 11), (''X'', 11), (''C'', 0),
              (''X2'', 121), (''C2'', 0), (''AX'', 11)]) = Inr (Fin c)"
  by (simp add: linear_predictor_def model_variables_def enumerate_eq_zip upt_rec
      dbl_mul_def fl_zero)



text \<open>
  C9, as the code has it. The probability of line 387 is monotonically non-increasing
  in the linear predictor: of two calls with finite predictors, both return a
  probability, and the one whose \<^verbatim>\<open>bsum\<close> is strictly larger does not return the
  larger one.
\<close>

theorem calculate_xG_nonincreasing:
  "linear_predictor b sh = Inr (Fin t) \<Longrightarrow> linear_predictor b' sh' = Inr (Fin t') \<Longrightarrow>
   t < t' \<Longrightarrow>
   \<exists>p p'. calculate_xG b sh = Inr (Fin p) \<and> calculate_xG b' sh' = Inr (Fin p') \<and> p' \<le> p"
proof -
  assume t: "linear_predictor b sh = Inr (Fin t)"
    and t': "linear_predictor b' sh' = Inr (Fin t')" and "t < t'"
  then have "t \<le> t'" by simp
  then obtain p p' where "xG_of_bsum (Fin t) = Fin p" "xG_of_bsum (Fin t') = Fin p'" "p' \<le> p"
    using xG_of_bsum_mono by blast
  with calculate_xG_Inr [OF t] calculate_xG_Inr [OF t'] show ?thesis by simp
qed

theorem calculate_xG_nonincreasing_witness:
  "\<exists>p p'.
     calculate_xG [- 37, 0, 0, 0, 0, 0, 0, 0]
       (map_of [(''Angle'', 1), (''Distance'', 11), (''X'', 11), (''C'', 0),
                (''X2'', 121), (''C2'', 0), (''AX'', 11)]) = Inr (Fin p)
     \<and> calculate_xG [1000, 0, 0, 0, 0, 0, 0, 0]
       (map_of [(''Angle'', 1), (''Distance'', 11), (''X'', 11), (''C'', 0),
                (''X2'', 121), (''C2'', 0), (''AX'', 11)]) = Inr (Fin p')
     \<and> p' \<le> p"
proof -
  have 1: "(- 37 :: real) < 1000" by simp
  show ?thesis
    by (rule calculate_xG_nonincreasing [OF linear_predictor_intercept linear_predictor_intercept 1])
      (rule fl_numerals)+
qed

text \<open>
  C9, as stated, fails: the linear predictors \<open>-50\<close> and \<open>-40\<close> differ and the two
  probabilities are the same double, 1; so do the linear predictors 0 and \<open>2 powi (- 60)\<close>,
  whose probabilities are both one half.
\<close>

theorem calculate_xG_not_strictly_decreasing_counterexample:
  "linear_predictor [- 50, 0, 0, 0, 0, 0, 0, 0]
     (map_of [(''Angle'', 1), (''Distance'', 11), (''X'', 11), (''C'', 0),
              (''X2'', 121), (''C2'', 0), (''AX'', 11)]) = Inr (Fin (- 50))
   \<and> linear_predictor [- 40, 0, 0, 0, 0, 0, 0, 0]
     (map_of [(''Angle'', 1), (''Distance'', 11), (''X'', 11), (''C'', 0),
              (''X2'', 121), (''C2'', 0), (''AX'', 11)]) = Inr (Fin (- 40))
   \<and> calculate_xG [- 50, 0, 0, 0, 0, 0, 0, 0]
     (map_of [(''Angle'', 1), (''Distance'', 11), (''X'', 11), (''C'', 0),
              (''X2'', 121), (''C2'', 0), (''AX'', 11)]) = Inr (Fin 1)
   \<and> calculate_xG [- 40, 0, 0, 0, 0, 0, 0, 0]
     (map_of [(''Angle'', 1), (''Distance'', 11), (''X'', 11), (''C'', 0),
              (''X2'', 121), (''C2'', 0), (''AX'', 11)]) = Inr (Fin 1)
   \<and> linear_predictor [0, 0, 0, 0, 0, 0, 0, 0]
     (map_of [(''Angle'', 1), (''Distance'', 11), (''X'', 11), (''C'', 0),
              (''X2'', 121), (''C2'', 0), (''AX'', 11)]) = Inr (Fin 0)
   \<and> linear_predictor [2 powi (- 60), 0, 0, 0, 0, 0, 0, 0]
     (map_of [(''Angle'', 1), (''Distance'', 11), (''X'', 11), (''C'', 0),
              (''X2'', 121), (''C2'', 0), (''AX'', 11)]) = Inr (Fin (2 powi (- 60)))
   \<and> calculate_xG [0, 0, 0, 0, 0, 0, 0, 0]
     (map_of [(''Angle'', 1), (''Distance'', 11), (''X'', 11), (''C'', 0),
              (''X2'', 121), (''C2'', 0), (''AX'', 11)]) = Inr (Fin (1 / 2))
   \<and> calculate_xG [2 powi (- 60), 0, 0, 0, 0, 0, 0, 0]
     (map_of [(''Angle'', 1), (''Distance'', 11), (''X'', 11), (''C'', 0),
              (''X2'', 121), (''C2'', 0), (''AX'', 11)]) = Inr (Fin (1 / 2))"
proof -
  let ?row = "map_of [(''Angle'', 1), (''Distance'', 11), (''X'', 11), (''C'', 0),
              (''X2'', 121), (''C2'', 0), (''AX'', 11 :: real)]"
  have 1: "linear_predictor [- 50, 0, 0, 0, 0, 0, 0, 0] ?row = Inr (Fin (- 50))"
    by (rule linear_predictor_intercept) (rule fl_numerals)
  have 2: "linear_predictor [- 40, 0, 0, 0, 0, 0, 0, 0] ?row = Inr (Fin (- 40))"
    by (rule linear_predictor_intercept) (rule fl_numerals)
  have 3: "xG_of_bsum (Fin (- 50)) = Fin 1" by (rule xG_of_bsum_saturates_one) simp
  have 4: "xG_of_bsum (Fin (- 40)) = Fin 1" by (rule xG_of_bsum_saturates_one) simp
  have 5: "linear_predictor [0, 0, 0, 0, 0, 0, 0, 0] ?row = Inr (Fin 0)"
    by (rule linear_predictor_intercept) (rule fl_zero)
  have 6: "linear_predictor [2 powi (- 60), 0, 0, 0, 0, 0, 0, 0] ?row = Inr (Fin (2 powi (- 60)))"
    by (rule linear_predictor_intercept) (rule fl_pow2, simp_all)
  have 7: "xG_of_bsum (Fin 0) = Fin (1 / 2)" by (rule xG_of_bsum_near_zero) simp_all
  have 8: "xG_of_bsum (Fin (2 powi (- 60))) = Fin (1 / 2)"
    by (rule xG_of_bsum_near_zero) simp_all
  from calculate_xG_Inr [OF 1] calculate_xG_Inr [OF 2] calculate_xG_Inr [OF 5]
    calculate_xG_Inr [OF 6] 1 2 5 6
  show ?thesis by (simp only: 3 4 7 8 simp_thms)
qed

section \<open>Properties of the evaluation\<close>




lemma count_shot_fields:
  "TP (count_shot t s c) = TP c + (if Goal s = 1 \<and> t < xG s then 1 else 0)"
  "FN (count_shot t s c) = FN c + (if Goal s = 1 \<and> \<not> t < xG s then 1 else 0)"
  "FP (count_shot t s c) = FP c + (if Goal s = 0 \<and> t < xG s then 1 else 0)"
  "TN (count_shot t s c) = TN c + (if Goal s = 0 \<and> \<not> t < xG s then 1 else 0)"
  by (simp_all add: count_shot_def Let_def)

lemma fold_count_shot_fields:
  "TP (fold (count_shot t) ss c) = TP c + length (filter (\<lambda>s. Goal s = 1 \<and> t < xG s) ss)"
  "FN (fold (count_shot t) ss c) = FN c + length (filter (\<lambda>s. Goal s = 1 \<and> \<not> t < xG s) ss)"
  "FP (fold (count_shot t) ss c) = FP c + length (filter (\<lambda>s. Goal s = 0 \<and> t < xG s) ss)"
  "TN (fold (count_shot t) ss c) = TN c + length (filter (\<lambda>s. Goal s = 0 \<and> \<not> t < xG s) ss)"
  by (induction ss arbitrary: c; simp add: count_shot_fields)+

lemma count_shots_fields:
  "TP (count_shots t ss) = length (filter (\<lambda>s. Goal s = 1 \<and> t < xG s) ss)"
  "FN (count_shots t ss) = length (filter (\<lambda>s. Goal s = 1 \<and> \<not> t < xG s) ss)"
  "FP (count_shots t ss) = length (filter (\<lambda>s. Goal s = 0 \<and> t < xG s) ss)"
  "TN (count_shots t ss) = length (filter (\<lambda>s. Goal s = 0 \<and> \<not> t < xG s) ss)"
  by (simp_all add: count_shots_def fold_count_shot_fields)

lemma length_filter_split:
  "length (filter (\<lambda>s. P s \<and> Q s) ss) + length (filter (\<lambda>s. P s \<and> \<not> Q s) ss)
     = length (filter P ss)"
  by (induction ss) auto

lemma count_shots_class_totals:
  "TP (count_shots t ss) + FN (count_shots t ss) = length (filter (\<lambda>s. Goal s = 1) ss)"
  "FP (count_shots t ss) + TN (count_shots t ss) = length (filter (\<lambda>s. Goal s = 0) ss)"
  by (simp_all add: count_shots_fields length_filter_split)

lemma roc_curve_nth:
  "i < numobs \<Longrightarrow> roc_curve ss ! i = roc_point (count_shots (thresholds ! i) ss)"
  by (simp add: roc_curve_def thresholds_def)

lemma thresholds_zero: "thresholds ! 0 = 0"
  by (simp add: thresholds_def numobs_def)


text \<open>
  C7. The curve has one point for each of the \<^verbatim>\<open>numobs\<close> thresholds and computing
  it raises nothing. At every threshold \<open>TP + FN\<close> is the number of goals and \<open>FP + TN\<close>
  the number of misses; a rate whose class is absent is NaN, and every other rate is
  the ordinary quotient.
\<close>

theorem roc_curve_degenerate_rates:
  "i < numobs \<Longrightarrow> c = count_shots (thresholds ! i) shots \<Longrightarrow>
   length (roc_curve shots) = numobs
   \<and> TP c + FN c = length (filter (\<lambda>s. Goal s = 1) shots)
   \<and> FP c + TN c = length (filter (\<lambda>s. Goal s = 0) shots)
   \<and> fst (roc_curve shots ! i) =
       (if FP c + TN c = 0 then NaN else Fin (real (FP c) / (real (FP c) + real (TN c))))
   \<and> snd (roc_curve shots ! i) =
       (if TP c + FN c = 0 then NaN else Fin (real (TP c) / (real (TP c) + real (FN c))))"
proof -
  assume i: "i < numobs" and c: "c = count_shots (thresholds ! i) shots"
  have 1: "length (roc_curve shots) = numobs"
    by (simp add: roc_curve_def thresholds_def)
  from c have 2: "TP c + FN c = length (filter (\<lambda>s. Goal s = 1) shots)"
    and 3: "FP c + TN c = length (filter (\<lambda>s. Goal s = 0) shots)"
    by (simp_all only: count_shots_class_totals)
  from i c have p: "roc_curve shots ! i = roc_point c" by (simp add: roc_curve_nth)
  have 4: "fst (roc_point c) =
       (if FP c + TN c = 0 then NaN else Fin (real (FP c) / (real (FP c) + real (TN c))))"
    by (simp add: roc_point_def np_divide_def)
  have 5: "snd (roc_point c) =
       (if TP c + FN c = 0 then NaN else Fin (real (TP c) / (real (TP c) + real (FN c))))"
    by (simp add: roc_point_def np_divide_def)
  from 1 2 3 4 5 show ?thesis unfolding p by blast
qed

theorem roc_curve_degenerate_rates_witness:
  "roc_curve [\<lparr>Goal = 1, cols = Map.empty, xG = 1 / 2\<rparr>] ! 0 = (NaN, Fin 1)"
proof -
  let ?shots = "[\<lparr>Goal = 1, cols = Map.empty, xG = 1 / 2\<rparr>]"
  let ?c = "count_shots (thresholds ! 0) ?shots"
  have i: "0 < numobs" by (simp add: numobs_def)
  have c: "TP ?c = 1" "FN ?c = 0" "FP ?c = 0" "TN ?c = 0"
    by (simp_all add: count_shots_fields thresholds_zero)
  from roc_curve_degenerate_rates [OF i refl, of ?shots]
  have "fst (roc_curve ?shots ! 0) = NaN" "snd (roc_curve ?shots ! 0) = Fin 1"
    by (simp_all add: c)
  then show ?thesis by (simp add: prod_eq_iff)
qed

end
